theory Spec2Isabelle
  imports Main
begin

section \<open>The session pool of package mgosession\<close>

text \<open>
  The development embeds \<^verbatim>\<open>vendor/github.com/juju/mgosession/session.go\<close>: the pool
  record, \<^verbatim>\<open>NewPool\<close>, \<^verbatim>\<open>Session\<close>, \<^verbatim>\<open>Reset\<close>, \<^verbatim>\<open>Close\<close>, \<^verbatim>\<open>closeSessions\<close> and the
  body of \<^verbatim>\<open>pinger\<close>. Every method runs under the pool's mutex, so a method call is one
  atomic step on the pair of the pool and its environment; the mutex itself is not
  modelled, and concurrency appears only as the order in which the steps are taken.
\<close>

subsection \<open>The environment: mgo sessions, the logger\<close>

text \<open>
  Modelled from the spec: the session handle \<^verbatim>\<open>*mgo.Session\<close> (package gopkg.in/mgo.v2,
  not part of the source tree) with its four operations copy, clone, ping and close.
  A handle is an identity; \<open>Copy\<close> and \<open>Clone\<close> return a handle that was never handed out
  before, \<open>Ping\<close> returns whether it failed, as the environment decides (\<open>ping_err e k\<close> is
  the outcome of the \<open>k\<close>-th ping, \<open>True\<close> for a non-nil error), and every call is
  recorded, in order, in \<open>calls\<close>.
\<close>

type_synonym handle = nat

datatype mgo_call =
    CopyCall handle handle
  | CloneCall handle handle
  | PingCall handle bool
  | CloseCall handle

datatype log_entry = DebugMsg string | InfoMsg string

record env =
  next_handle :: handle
  calls :: "mgo_call list"
  ping_err :: "nat \<Rightarrow> bool"
  pings :: nat
  logged :: "log_entry list"

definition mgo_Copy :: "handle \<Rightarrow> env \<Rightarrow> handle \<times> env" where
  "mgo_Copy s e =
     (next_handle e,
      e\<lparr>next_handle := Suc (next_handle e),
        calls := calls e @ [CopyCall s (next_handle e)]\<rparr>)"

definition mgo_Clone :: "handle \<Rightarrow> env \<Rightarrow> handle \<times> env" where
  "mgo_Clone s e =
     (next_handle e,
      e\<lparr>next_handle := Suc (next_handle e),
        calls := calls e @ [CloneCall s (next_handle e)]\<rparr>)"

definition mgo_Ping :: "handle \<Rightarrow> env \<Rightarrow> bool \<times> env" where
  "mgo_Ping s e =
     (ping_err e (pings e),
      e\<lparr>pings := Suc (pings e),
        calls := calls e @ [PingCall s (ping_err e (pings e))]\<rparr>)"

definition mgo_Close :: "handle \<Rightarrow> env \<Rightarrow> env" where
  "mgo_Close s e = e\<lparr>calls := calls e @ [CloseCall s]\<rparr>"

text \<open>
  The interface \<^verbatim>\<open>Logger\<close> has the two methods \<^verbatim>\<open>Debug\<close> and \<^verbatim>\<open>Info\<close>; an implementation
  acts on the log of the environment. \<open>nullLogger\<close> is the source's implementation that
  does nothing; \<open>recordingLogger\<close> keeps every message.
\<close>

record Logger =
  Debug :: "string \<Rightarrow> log_entry list \<Rightarrow> log_entry list"
  Info :: "string \<Rightarrow> log_entry list \<Rightarrow> log_entry list"

definition nullLogger :: Logger where
  "nullLogger = \<lparr>Debug = (\<lambda>_ l. l), Info = (\<lambda>_ l. l)\<rparr>"

definition recordingLogger :: Logger where
  "recordingLogger =
     \<lparr>Debug = (\<lambda>m l. l @ [DebugMsg m]), Info = (\<lambda>m l. l @ [InfoMsg m])\<rparr>"

definition logger_or_null :: "Logger option \<Rightarrow> Logger" where
  \<comment> \<open>\<^verbatim>\<open>if logger == nil { logger = nullLogger{} }\<close>\<close>
  "logger_or_null logger = (case logger of None \<Rightarrow> nullLogger | Some l \<Rightarrow> l)"

definition log_Info :: "Logger \<Rightarrow> string \<Rightarrow> env \<Rightarrow> env" where
  "log_Info logger m e = e\<lparr>logged := Info logger m (logged e)\<rparr>"

definition log_Debug :: "Logger \<Rightarrow> string \<Rightarrow> env \<Rightarrow> env" where
  "log_Debug logger m e = e\<lparr>logged := Debug logger m (logged e)\<rparr>"

subsection \<open>Formatting and arithmetic of Go\<close>

text \<open>The verb \<^verbatim>\<open>%d\<close> of \<^verbatim>\<open>fmt.Sprintf\<close>: the decimal digits, with a sign when negative.\<close>

definition digit_char :: "nat \<Rightarrow> char" where
  "digit_char d = ''0123456789'' ! d"

fun dec_digits :: "nat \<Rightarrow> string" where
  "dec_digits n =
     (if n < 10 then [digit_char n] else dec_digits (n div 10) @ [digit_char (n mod 10)])"

declare dec_digits.simps [simp del]

definition fmt_d :: "int \<Rightarrow> string" where
  "fmt_d i = (if i < 0 then CHR ''-'' # dec_digits (nat (- i)) else dec_digits (nat i))"

text \<open>
  Go's \<^verbatim>\<open>%\<close> on integers truncates towards zero: the result has the sign of the
  dividend. A zero divisor panics.
\<close>

definition go_rem :: "int \<Rightarrow> int \<Rightarrow> int" where
  "go_rem a b = sgn a * (\<bar>a\<bar> mod \<bar>b\<bar>)"

subsection \<open>The pool\<close>

datatype panic =
    Panic string
  | IndexOutOfRange
  | DivideByZero
  | MakeSliceLenOutOfRange

text \<open>
  The field \<^verbatim>\<open>tomb\<close> (package gopkg.in/tomb.v2) tracks the one goroutine the pool starts:
  it is \<open>Running\<close> the pinger with the logger the pool was created with, until
  \<^verbatim>\<open>Kill\<close> and \<^verbatim>\<open>Wait\<close> have returned, and \<open>Dead\<close> from then on.
\<close>

datatype tomb_state = Running Logger | Dead

record Pool =
  tomb :: tomb_state
  sessions :: "handle option list"
  sessionIndex :: int
  session :: handle
  closed :: bool

type_synonym state = "Pool \<times> env"

text \<open>
  \<^verbatim>\<open>NewPool\<close>: \<^verbatim>\<open>make([]*mgo.Session, maxSessions)\<close> panics at run time when the length is
  negative; it is evaluated before \<^verbatim>\<open>s.Copy()\<close>. The slice holds \<^verbatim>\<open>maxSessions\<close> nil
  pointers, \<^verbatim>\<open>sessionIndex\<close> and \<^verbatim>\<open>closed\<close> have their zero values. The base session \<open>s\<close>
  is taken non-nil.
\<close>

definition NewPool :: "Logger option \<Rightarrow> handle \<Rightarrow> int \<Rightarrow> env \<Rightarrow> panic + state" where
  "NewPool logger s maxSessions e =
     (if maxSessions < 0 then Inl MakeSliceLenOutOfRange
      else
        let (c, e1) = mgo_Copy s e
        in Inr (\<lparr>tomb = Running (logger_or_null logger),
                  sessions = replicate (nat maxSessions) None,
                  sessionIndex = 0,
                  session = c,
                  closed = False\<rparr>, e1))"

text \<open>
  \<^verbatim>\<open>Session\<close>: the panic on a closed pool comes first; the read
  \<^verbatim>\<open>p.sessions[p.sessionIndex]\<close> panics when the index is out of range. A panic
  happens before any field is written, so it leaves the pool as it was.
  The field \<^verbatim>\<open>sessionIndex\<close> is a Go \<^verbatim>\<open>int\<close>, modelled as an integer without
  wrap-around: the sum \<^verbatim>\<open>p.sessionIndex + 1\<close> is only computed once the index has been
  found below the length of the slice, which is itself an \<^verbatim>\<open>int\<close>, so it cannot
  overflow.
\<close>

definition Session :: "Logger option \<Rightarrow> state \<Rightarrow> panic + (handle \<times> state)" where
  "Session logger0 st =
     (let (p, e) = st; logger = logger_or_null logger0 in
      if closed p then Inl (Panic ''Session called on closed Pool'')
      else if sessionIndex p < 0 \<or> int (length (sessions p)) \<le> sessionIndex p
        then Inl IndexOutOfRange
      else
        let i = nat (sessionIndex p);
            (s, p1, e1) =
              (case sessions p ! i of
                 None \<Rightarrow>
                   let e1 = log_Info logger
                              (''creating new session; index '' @ fmt_d (sessionIndex p)) e;
                       (s, e2) = mgo_Copy (session p) e1;
                       (_, e3) = mgo_Ping s e2
                   in (s, p\<lparr>sessions := (sessions p)[i := Some s]\<rparr>, e3)
               | Some s \<Rightarrow>
                   (s, p,
                    log_Debug logger
                      (''reusing session; index '' @ fmt_d (sessionIndex p)) e))
        in
          if length (sessions p1) = 0 then Inl DivideByZero
          else
            let p2 = p1\<lparr>sessionIndex :=
                          go_rem (sessionIndex p1 + 1) (int (length (sessions p1)))\<rparr>;
                (c, e2) = mgo_Clone s e1
            in Inr (c, p2, e2))"

text \<open>
  \<^verbatim>\<open>closeSessions\<close>: the \<^verbatim>\<open>range\<close> loop visits the slots in order; a non-nil slot is
  closed and set to nil, a nil slot is left as it is.
\<close>

fun closeSessions_loop :: "handle option list \<Rightarrow> env \<Rightarrow> handle option list \<times> env" where
  "closeSessions_loop [] e = ([], e)"
| "closeSessions_loop (None # rest) e =
     (let (rest', e') = closeSessions_loop rest e in (None # rest', e'))"
| "closeSessions_loop (Some s # rest) e =
     (let (rest', e') = closeSessions_loop rest (mgo_Close s e) in (None # rest', e'))"

definition closeSessions :: "state \<Rightarrow> state" where
  "closeSessions st =
     (let (p, e) = st; (ss, e') = closeSessions_loop (sessions p) e
      in (p\<lparr>sessions := ss\<rparr>, e'))"

definition Reset :: "state \<Rightarrow> state" where
  "Reset st = closeSessions st"

text \<open>
  \<^verbatim>\<open>Close\<close>: \<^verbatim>\<open>p.tomb.Kill(nil); p.tomb.Wait()\<close> leave the tomb dead whatever it was, then
  the early return on \<^verbatim>\<open>p.closed\<close>.
\<close>

definition Close :: "state \<Rightarrow> state" where
  "Close st =
     (let (p, e) = st; p0 = p\<lparr>tomb := Dead\<rparr> in
      if closed p0 then (p0, e)
      else
        let p1 = p0\<lparr>closed := True\<rparr>;
            (p2, e2) = closeSessions (p1, e)
        in (p2, mgo_Close (session p2) e2))"

text \<open>
  The body of the loop of \<^verbatim>\<open>pinger\<close> after the timer has fired (lines 89 to 93), and the
  loop itself, driven by the outcomes of its \<^verbatim>\<open>select\<close>: when the list of outcomes is
  used up the goroutine is waiting in the \<^verbatim>\<open>select\<close>.
\<close>

definition pinger_body :: "Logger \<Rightarrow> state \<Rightarrow> panic + state" where
  "pinger_body logger st =
     (case Session (Some logger) st of
        Inl err \<Rightarrow> Inl err
      | Inr (s, p1, e1) \<Rightarrow>
          let (failed, e2) = mgo_Ping s e1;
              (p3, e3) = (if failed then Reset (p1, e2) else (p1, e2))
          in Inr (p3, mgo_Close s e3))"

datatype select_case = TombDying | ClockAfter

fun pinger :: "Logger \<Rightarrow> select_case list \<Rightarrow> state \<Rightarrow> panic + state" where
  "pinger logger [] st = Inr st"
| "pinger logger (TombDying # _) st = Inr st"
| "pinger logger (ClockAfter # cs) st =
     (case pinger_body logger st of
        Inl err \<Rightarrow> Inl err
      | Inr st' \<Rightarrow> pinger logger cs st')"

subsection \<open>Runs of the pool\<close>

text \<open>
  \<open>Sessions\<close> is a caller making one \<^verbatim>\<open>Session\<close> call after the other, one for each
  logger of the list, with nothing in between; it collects the handles and stops at the
  first panic.
\<close>

fun Sessions :: "Logger option list \<Rightarrow> state \<Rightarrow> panic + (handle list \<times> state)" where
  "Sessions [] st = Inr ([], st)"
| "Sessions (l # ls) st =
     (case Session l st of
        Inl err \<Rightarrow> Inl err
      | Inr (h, st') \<Rightarrow>
          (case Sessions ls st' of
             Inl err \<Rightarrow> Inl err
           | Inr (hs, st'') \<Rightarrow> Inr (h # hs, st'')))"

text \<open>
  The steps that can be taken on a pool, in any order: a call of one of the three
  methods, or one turn of the pinger's loop, which the goroutine takes only while the
  tomb is alive. A call that panics has written nothing, so the pool is left as it was
  and the run goes on (a panic in the pinger's goroutine ends the process, so no state
  follows it; keeping the state only adds runs).
\<close>

datatype pool_op = OpSession "Logger option" | OpReset | OpClose | OpPinger

fun apply_op :: "pool_op \<Rightarrow> state \<Rightarrow> state" where
  "apply_op (OpSession l) st =
     (case Session l st of Inl _ \<Rightarrow> st | Inr (_, st') \<Rightarrow> st')"
| "apply_op OpReset st = Reset st"
| "apply_op OpClose st = Close st"
| "apply_op OpPinger st =
     (case tomb (fst st) of
        Dead \<Rightarrow> st
      | Running logger \<Rightarrow>
          (case pinger_body logger st of Inl _ \<Rightarrow> st | Inr st' \<Rightarrow> st'))"

fun run_ops :: "pool_op list \<Rightarrow> state \<Rightarrow> state" where
  "run_ops [] st = st"
| "run_ops (x # xs) st = run_ops xs (apply_op x st)"

text \<open>The handles held by the non-nil slots, in slot order.\<close>

definition filled :: "handle option list \<Rightarrow> handle list" where
  "filled ss = map the (filter (\<lambda>x. x \<noteq> None) ss)"

text \<open>
  An environment to run examples in: handle \<open>0\<close> is the session the caller dialled, no
  call has been made yet, and every ping succeeds but the one numbered \<open>k\<close>.
\<close>

definition env_failing :: "nat \<Rightarrow> env" where
  "env_failing k =
     \<lparr>next_handle = 1, calls = [], ping_err = (\<lambda>n. n = k), pings = 0, logged = []\<rparr>"

text \<open>
  The shape of a pool of \<open>m\<close> slots that has served \<open>n\<close> calls since it was created
  and has not been reset: open, cursor at \<open>n mod m\<close>, and exactly the first \<open>n\<close> slots
  filled.
\<close>

definition filled_to :: "nat \<Rightarrow> nat \<Rightarrow> state \<Rightarrow> bool" where
  "filled_to m n st \<longleftrightarrow>
     \<not> closed (fst st) \<and> length (sessions (fst st)) = m \<and>
     sessionIndex (fst st) = int (n mod m) \<and>
     (\<forall>j<m. (sessions (fst st) ! j \<noteq> None) = (j < n))"

text \<open>
  The pool that \<^verbatim>\<open>NewPool\<close> returns for \<open>m\<close> slots and a recording logger in the
  environment \<open>env_failing k\<close>.
\<close>

definition fresh_pool :: "int \<Rightarrow> nat \<Rightarrow> state" where
  "fresh_pool m k = projr (NewPool (Some recordingLogger) 0 m (env_failing k))"

text \<open>
  Two invariants of the pools that can be reached from \<^verbatim>\<open>NewPool\<close>. The first: the
  slice keeps its length, and a closed pool has nil slots only. The second, for a pool
  with at least one slot: the cursor is within the slice, a closed pool has a dead tomb,
  and every handle in a slot was handed out by the environment earlier.
\<close>

definition nil_when_closed :: "nat \<Rightarrow> state \<Rightarrow> bool" where
  "nil_when_closed m st \<longleftrightarrow>
     length (sessions (fst st)) = m \<and>
     (closed (fst st) \<longrightarrow> sessions (fst st) = replicate m None)"

definition well_formed :: "state \<Rightarrow> bool" where
  "well_formed st \<longleftrightarrow>
     0 \<le> sessionIndex (fst st) \<and>
     sessionIndex (fst st) < int (length (sessions (fst st))) \<and>
     (closed (fst st) \<longrightarrow> tomb (fst st) = Dead) \<and>
     (\<forall>s. Some s \<in> set (sessions (fst st)) \<longrightarrow> s < next_handle (snd st))"

section \<open>Basic facts\<close>

lemma go_rem_nonneg: "0 \<le> a \<Longrightarrow> 0 < b \<Longrightarrow> go_rem a b = a mod b"
  by (cases "a = 0") (simp_all add: go_rem_def)

lemma Session_closed:
  "closed p \<Longrightarrow> Session l (p, e) = Inl (Panic ''Session called on closed Pool'')"
  by (simp add: Session_def)

lemma Session_out_of_range:
  "\<not> closed p \<Longrightarrow> sessionIndex p < 0 \<or> int (length (sessions p)) \<le> sessionIndex p \<Longrightarrow>
   Session l (p, e) = Inl IndexOutOfRange"
  by (simp add: Session_def)

lemma Session_miss:
  assumes "\<not> closed p" "0 \<le> sessionIndex p" "sessionIndex p < int (length (sessions p))"
    and "sessions p ! nat (sessionIndex p) = None"
  shows "Session l (p, e) =
     Inr (Suc (next_handle e),
          p\<lparr>sessions := (sessions p)[nat (sessionIndex p) := Some (next_handle e)],
            sessionIndex := (sessionIndex p + 1) mod int (length (sessions p))\<rparr>,
          e\<lparr>next_handle := Suc (Suc (next_handle e)),
            calls := calls e @ [CopyCall (session p) (next_handle e),
                                PingCall (next_handle e) (ping_err e (pings e)),
                                CloneCall (next_handle e) (Suc (next_handle e))],
            pings := Suc (pings e),
            logged := Info (logger_or_null l)
                        (''creating new session; index '' @ fmt_d (sessionIndex p))
                        (logged e)\<rparr>)"
proof -
  have "sessions p \<noteq> []" using assms by auto
  with assms show ?thesis
    by (simp add: Session_def Let_def mgo_Copy_def mgo_Ping_def mgo_Clone_def log_Info_def
        go_rem_nonneg)
qed

lemma Session_hit:
  assumes "\<not> closed p" "0 \<le> sessionIndex p" "sessionIndex p < int (length (sessions p))"
    and "sessions p ! nat (sessionIndex p) = Some s"
  shows "Session l (p, e) =
     Inr (next_handle e,
          p\<lparr>sessionIndex := (sessionIndex p + 1) mod int (length (sessions p))\<rparr>,
          e\<lparr>next_handle := Suc (next_handle e),
            calls := calls e @ [CloneCall s (next_handle e)],
            logged := Debug (logger_or_null l)
                        (''reusing session; index '' @ fmt_d (sessionIndex p))
                        (logged e)\<rparr>)"
proof -
  have "sessions p \<noteq> []" using assms by auto
  with assms show ?thesis
    by (simp add: Session_def Let_def mgo_Clone_def log_Debug_def go_rem_nonneg)
qed

lemma closeSessions_loop_eq:
  "closeSessions_loop ss e =
     (replicate (length ss) None, e\<lparr>calls := calls e @ map CloseCall (filled ss)\<rparr>)"
  by (induction ss e rule: closeSessions_loop.induct)
     (simp_all add: filled_def mgo_Close_def)

lemma closeSessions_eq:
  "closeSessions (p, e) =
     (p\<lparr>sessions := replicate (length (sessions p)) None\<rparr>,
      e\<lparr>calls := calls e @ map CloseCall (filled (sessions p))\<rparr>)"
  by (simp add: closeSessions_def closeSessions_loop_eq)

lemma Reset_eq:
  "Reset (p, e) =
     (p\<lparr>sessions := replicate (length (sessions p)) None\<rparr>,
      e\<lparr>calls := calls e @ map CloseCall (filled (sessions p))\<rparr>)"
  by (simp add: Reset_def closeSessions_eq)

lemma Close_open:
  "\<not> closed p \<Longrightarrow> Close (p, e) =
     (p\<lparr>tomb := Dead, closed := True, sessions := replicate (length (sessions p)) None\<rparr>,
      e\<lparr>calls := calls e @ map CloseCall (filled (sessions p)) @ [CloseCall (session p)]\<rparr>)"
  by (simp add: Close_def closeSessions_eq mgo_Close_def)

lemma Close_closed:
  "closed p \<Longrightarrow> Close (p, e) = (p\<lparr>tomb := Dead\<rparr>, e)"
  by (simp add: Close_def)

lemma filled_replicate_None [simp]: "filled (replicate n None) = []"
  by (simp add: filled_def)

subsection \<open>A closed pool stays closed\<close>

lemma closed_Close: "closed (fst (Close st))"
  by (cases st, cases "closed (fst st)") (simp_all add: Close_open Close_closed)

lemma tomb_Close: "tomb (fst (Close st)) = Dead"
  by (cases st, cases "closed (fst st)") (simp_all add: Close_open Close_closed)

lemma pinger_body_closed: "closed p \<Longrightarrow> pinger_body logger (p, e) = Inl (Panic ''Session called on closed Pool'')"
  by (simp add: pinger_body_def Session_closed)

lemma closed_apply_op: "closed (fst st) \<Longrightarrow> closed (fst (apply_op x st))"
proof (cases st)
  case (Pair p e)
  assume "closed (fst st)"
  with Pair have c: "closed p" by simp
  show ?thesis
  proof (cases x)
    case (OpSession l)
    with Pair c show ?thesis by (simp add: Session_closed)
  next
    case OpReset
    with Pair c show ?thesis by (simp add: Reset_eq)
  next
    case OpClose
    then show ?thesis by (simp add: closed_Close)
  next
    case OpPinger
    with Pair c show ?thesis by (simp add: pinger_body_closed split: tomb_state.split)
  qed
qed

lemma closed_run_ops: "closed (fst st) \<Longrightarrow> closed (fst (run_ops xs st))"
  by (induction xs arbitrary: st) (simp_all add: closed_apply_op)

lemma tomb_apply_op:
  assumes "closed (fst st)" "tomb (fst st) = Dead"
  shows "tomb (fst (apply_op x st)) = Dead"
proof (cases st)
  case (Pair p e)
  with assms have c: "closed p" and t: "tomb p = Dead" by simp_all
  show ?thesis
  proof (cases x)
    case (OpSession l)
    with Pair c t show ?thesis by (simp add: Session_closed)
  next
    case OpReset
    with Pair t show ?thesis by (simp add: Reset_eq)
  next
    case OpClose
    then show ?thesis by (simp add: tomb_Close)
  next
    case OpPinger
    with Pair t show ?thesis by simp
  qed
qed

lemma tomb_run_ops:
  "closed (fst st) \<Longrightarrow> tomb (fst st) = Dead \<Longrightarrow> tomb (fst (run_ops xs st)) = Dead"
  by (induction xs arbitrary: st) (simp_all add: closed_apply_op tomb_apply_op)

subsection \<open>A fresh pool fills its slots in order\<close>

lemma NewPool_Inr:
  "NewPool logger s maxSessions e = Inr st0 \<Longrightarrow>
   0 \<le> maxSessions \<and>
   st0 = (\<lparr>tomb = Running (logger_or_null logger),
           sessions = replicate (nat maxSessions) None,
           sessionIndex = 0, session = next_handle e, closed = False\<rparr>,
          e\<lparr>next_handle := Suc (next_handle e),
            calls := calls e @ [CopyCall s (next_handle e)]\<rparr>)"
  by (cases "maxSessions < 0") (simp_all add: NewPool_def mgo_Copy_def)

lemma NewPool_filled_to:
  "NewPool logger s maxSessions e = Inr st0 \<Longrightarrow> filled_to (nat maxSessions) 0 st0"
  by (drule NewPool_Inr) (simp add: filled_to_def)

lemma int_Suc_mod: "(int (n mod m) + 1) mod int m = int (Suc n mod m)"
proof -
  have "(int (n mod m) + 1) mod int m = (int n mod int m + 1) mod int m"
    by (simp add: zmod_int)
  also have "\<dots> = (int n + 1) mod int m" by (rule mod_add_left_eq)
  also have "\<dots> = int (Suc n mod m)" by (simp add: zmod_int add.commute)
  finally show ?thesis .
qed

lemma Session_filled_to:
  assumes m: "0 < m" and inv: "filled_to m n st"
  shows "\<exists>h st'. Session l st = Inr (h, st') \<and> filled_to m (Suc n) st' \<and>
      (\<exists>s'. sessions (fst st') ! (n mod m) = Some s' \<and>
            last (calls (snd st')) = CloneCall s' h) \<and>
      (\<forall>j<m. j \<noteq> n mod m \<longrightarrow> sessions (fst st') ! j = sessions (fst st) ! j) \<and>
      sessionIndex (fst st') = (sessionIndex (fst st) + 1) mod int m \<and>
      (m \<le> n \<longrightarrow> sessions (fst st') = sessions (fst st) \<and>
         (\<exists>s'. sessions (fst st) ! (n mod m) = Some s' \<and>
            calls (snd st') = calls (snd st) @ [CloneCall s' h]))"
proof (cases st)
  case (Pair p e)
  from inv Pair have op: "\<not> closed p" and len: "length (sessions p) = m"
    and idx: "sessionIndex p = int (n mod m)"
    and slots: "\<And>j. j < m \<Longrightarrow> (sessions p ! j \<noteq> None) = (j < n)"
    by (simp_all add: filled_to_def)
  have lt: "n mod m < m" using m by simp
  have r0: "0 \<le> sessionIndex p" and r1: "sessionIndex p < int (length (sessions p))"
    and ni: "nat (sessionIndex p) = n mod m"
    using idx len lt by simp_all
  have nx: "(sessionIndex p + 1) mod int (length (sessions p)) = int (Suc n mod m)"
    using idx len int_Suc_mod [of n m] by simp
  show ?thesis
  proof (cases "n < m")
    case True
    then have nm: "n mod m = n" by simp
    have none: "sessions p ! nat (sessionIndex p) = None"
      using slots [of n] True ni nm by simp
    define p' where "p' = p\<lparr>sessions := (sessions p)[nat (sessionIndex p) := Some (next_handle e)],
            sessionIndex := (sessionIndex p + 1) mod int (length (sessions p))\<rparr>"
    obtain e' where S: "Session l (p, e) = Inr (Suc (next_handle e), p', e')"
      and c: "calls e' = calls e @ [CopyCall (session p) (next_handle e),
                                PingCall (next_handle e) (ping_err e (pings e)),
                                CloneCall (next_handle e) (Suc (next_handle e))]"
      using Session_miss [OF op r0 r1 none, of l e] by (simp add: p'_def)
    have f: "filled_to m (Suc n) (p', e')"
      using op len nx slots True
      by (auto simp: filled_to_def p'_def ni nm nth_list_update less_Suc_eq)
    have a: "sessions p' ! (n mod m) = Some (next_handle e)"
      using len True by (simp add: p'_def ni nm)
    have b: "\<forall>j<m. j \<noteq> n mod m \<longrightarrow> sessions p' ! j = sessions p ! j"
      by (simp add: p'_def ni)
    have d: "sessionIndex p' = (sessionIndex p + 1) mod int m"
      using len by (simp add: p'_def)
    from S f a b c d True Pair show ?thesis by simp
  next
    case False
    then have "n mod m < n" using lt by simp
    then obtain s' where s': "sessions p ! nat (sessionIndex p) = Some s'"
      using slots [OF lt] ni by auto
    define p' where "p' = p\<lparr>sessionIndex := (sessionIndex p + 1) mod int (length (sessions p))\<rparr>"
    obtain e' where S: "Session l (p, e) = Inr (next_handle e, p', e')"
      and c: "calls e' = calls e @ [CloneCall s' (next_handle e)]"
      using Session_hit [OF op r0 r1 s', of l e] by (simp add: p'_def)
    have f: "filled_to m (Suc n) (p', e')"
      using op len nx slots False by (auto simp: filled_to_def p'_def)
    have a: "sessions p' = sessions p" by (simp add: p'_def)
    have d: "sessionIndex p' = (sessionIndex p + 1) mod int m"
      using len by (simp add: p'_def)
    from S f a c d s' ni Pair show ?thesis by simp
  qed
qed

lemma Sessions_filled_to:
  "0 < m \<Longrightarrow> filled_to m n st \<Longrightarrow>
   \<exists>hs st'. Sessions ls st = Inr (hs, st') \<and> length hs = length ls \<and>
     filled_to m (n + length ls) st'"
proof (induction ls arbitrary: n st)
  case Nil
  then show ?case by simp
next
  case (Cons l ls)
  from Session_filled_to [OF Cons.prems, of l]
  obtain h st1 where 1: "Session l st = Inr (h, st1)" and 2: "filled_to m (Suc n) st1"
    by blast
  from Cons.IH [OF Cons.prems(1) 2]
  obtain hs st' where "Sessions ls st1 = Inr (hs, st')" "length hs = length ls"
    "filled_to m (Suc n + length ls) st'" by blast
  with 1 show ?case by simp
qed

subsection \<open>What a call of Session does\<close>

lemma Session_open:
  assumes op: "\<not> closed p" and r0: "0 \<le> sessionIndex p"
    and r1: "sessionIndex p < int (length (sessions p))"
  shows "\<exists>h p' e'. Session l (p, e) = Inr (h, p', e') \<and>
     (case sessions p ! nat (sessionIndex p) of
        None \<Rightarrow>
          calls e' = calls e @ [CopyCall (session p) (next_handle e),
                                PingCall (next_handle e) (ping_err e (pings e)),
                                CloneCall (next_handle e) h] \<and>
          sessions p' = (sessions p)[nat (sessionIndex p) := Some (next_handle e)] \<and>
          h \<noteq> next_handle e
      | Some s \<Rightarrow>
          calls e' = calls e @ [CloneCall s h] \<and>
          sessions p' = sessions p \<and>
          (s < next_handle e \<longrightarrow> h \<noteq> s)) \<and>
     (\<forall>f. \<exists>e''. Session l (p, e\<lparr>ping_err := f\<rparr>) = Inr (h, p', e''))"
proof (cases "sessions p ! nat (sessionIndex p)")
  case None
  note miss = Session_miss [OF op r0 r1 None, of l]
  have "\<forall>f. \<exists>e''. Session l (p, e\<lparr>ping_err := f\<rparr>) =
      Inr (Suc (next_handle e),
           p\<lparr>sessions := (sessions p)[nat (sessionIndex p) := Some (next_handle e)],
             sessionIndex := (sessionIndex p + 1) mod int (length (sessions p))\<rparr>, e'')"
    by (simp add: miss)
  then show ?thesis by (simp add: miss [of e] None)
next
  case (Some s)
  note hit = Session_hit [OF op r0 r1 Some, of l]
  have "\<forall>f. \<exists>e''. Session l (p, e\<lparr>ping_err := f\<rparr>) =
      Inr (next_handle e,
           p\<lparr>sessionIndex := (sessionIndex p + 1) mod int (length (sessions p))\<rparr>, e'')"
    by (simp add: hit)
  then show ?thesis by (simp add: hit [of e] Some)
qed

lemma Session_Inr_frame:
  assumes "Session l (p, e) = Inr (h, p', e')"
  shows "\<not> closed p \<and> \<not> closed p' \<and> tomb p' = tomb p \<and> session p' = session p \<and>
     length (sessions p') = length (sessions p) \<and>
     0 \<le> sessionIndex p \<and> sessionIndex p < int (length (sessions p)) \<and>
     sessions p' ! nat (sessionIndex p) \<noteq> None"
proof -
  have op: "\<not> closed p" using assms by (auto simp: Session_closed)
  have rng: "0 \<le> sessionIndex p \<and> sessionIndex p < int (length (sessions p))"
    using assms op Session_out_of_range [of p l e] by fastforce
  then have r0: "0 \<le> sessionIndex p" and r1: "sessionIndex p < int (length (sessions p))"
    by simp_all
  show ?thesis
  proof (cases "sessions p ! nat (sessionIndex p)")
    case None
    from Session_miss [OF op r0 r1 None, of l e] assms
    have "p' = p\<lparr>sessions := (sessions p)[nat (sessionIndex p) := Some (next_handle e)],
            sessionIndex := (sessionIndex p + 1) mod int (length (sessions p))\<rparr>"
      by simp
    with op r0 r1 show ?thesis by simp
  next
    case (Some s)
    from Session_hit [OF op r0 r1 Some, of l e] assms
    have "p' = p\<lparr>sessionIndex := (sessionIndex p + 1) mod int (length (sessions p))\<rparr>"
      by simp
    with op r0 r1 Some show ?thesis by simp
  qed
qed

lemma Session_returns:
  assumes "\<not> closed p" "0 \<le> sessionIndex p" "sessionIndex p < int (length (sessions p))"
  shows "\<exists>h p' e'. Session l (p, e) = Inr (h, p', e')"
proof (cases "sessions p ! nat (sessionIndex p)")
  case None
  from Session_miss [OF assms None, of l e] show ?thesis by blast
next
  case (Some s)
  from Session_hit [OF assms Some, of l e] show ?thesis by blast
qed

lemma replicate_None_nth: "i < length ss \<Longrightarrow> ss ! i \<noteq> None \<Longrightarrow> ss \<noteq> replicate n None"
  by (metis length_replicate nth_replicate)

lemma Session_hit_the:
  assumes "\<not> closed p" "0 \<le> sessionIndex p" "sessionIndex p < int (length (sessions p))"
    and "sessions p ! nat (sessionIndex p) \<noteq> None"
  shows "Session l (p, e) =
     Inr (next_handle e,
          p\<lparr>sessionIndex := (sessionIndex p + 1) mod int (length (sessions p))\<rparr>,
          e\<lparr>next_handle := Suc (next_handle e),
            calls := calls e @ [CloneCall (the (sessions p ! nat (sessionIndex p))) (next_handle e)],
            logged := Debug (logger_or_null l)
                        (''reusing session; index '' @ fmt_d (sessionIndex p))
                        (logged e)\<rparr>)"
proof -
  from assms(4) obtain s where s: "sessions p ! nat (sessionIndex p) = Some s" by auto
  from Session_hit [OF assms(1-3) s, of l e] s show ?thesis by simp
qed

subsection \<open>One turn of the pinger\<close>

lemma pinger_body_open:
  assumes op: "\<not> closed p" and r0: "0 \<le> sessionIndex p"
    and r1: "sessionIndex p < int (length (sessions p))"
  shows "\<exists>h p1 e1 p' e'.
     Session (Some logger) (p, e) = Inr (h, p1, e1) \<and>
     pinger_body logger (p, e) = Inr (p', e') \<and>
     (p', e') =
       (if ping_err e1 (pings e1)
        then (fst (Reset (p1, snd (mgo_Ping h e1))),
              mgo_Close h (snd (Reset (p1, snd (mgo_Ping h e1)))))
        else (p1, mgo_Close h (snd (mgo_Ping h e1)))) \<and>
     calls e' =
       calls e1 @ [PingCall h (ping_err e1 (pings e1))] @
       (if ping_err e1 (pings e1) then map CloseCall (filled (sessions p1)) else []) @
       [CloseCall h] \<and>
     sessions p' =
       (if ping_err e1 (pings e1) then replicate (length (sessions p)) None
        else sessions p1) \<and>
     (sessions p' = replicate (length (sessions p)) None) = ping_err e1 (pings e1) \<and>
     sessionIndex p' = sessionIndex p1 \<and> closed p' = closed p \<and> session p' = session p"
proof -
  from Session_returns [OF op r0 r1, of "Some logger" e]
  obtain h p1 e1 where S: "Session (Some logger) (p, e) = Inr (h, p1, e1)" by blast
  note fr = Session_Inr_frame [OF S]
  have len: "length (sessions p1) = length (sessions p)" using fr by simp
  have "nat (sessionIndex p) < length (sessions p1)" using len r0 r1 by simp
  moreover have "sessions p1 ! nat (sessionIndex p) \<noteq> None" using fr by simp
  ultimately have ne: "sessions p1 \<noteq> replicate (length (sessions p)) None"
    by (rule replicate_None_nth)
  let ?failed = "ping_err e1 (pings e1)"
  let ?e2 = "e1\<lparr>pings := Suc (pings e1), calls := calls e1 @ [PingCall h ?failed]\<rparr>"
  have P: "mgo_Ping h e1 = (?failed, ?e2)" by (simp add: mgo_Ping_def)
  have c2: "calls ?e2 = calls e1 @ [PingCall h ?failed]"
    by simp
  show ?thesis
  proof (cases ?failed)
    case True
    have B: "pinger_body logger (p, e) =
        Inr (fst (Reset (p1, ?e2)), mgo_Close h (snd (Reset (p1, ?e2))))"
      using True by (simp add: pinger_body_def S P split: prod.split)
    have "calls (mgo_Close h (snd (Reset (p1, ?e2)))) =
        calls e1 @ [PingCall h ?failed] @ map CloseCall (filled (sessions p1)) @ [CloseCall h]"
      using c2 by (simp add: Reset_eq mgo_Close_def)
    moreover have "sessions (fst (Reset (p1, ?e2))) = replicate (length (sessions p)) None"
      by (simp add: Reset_eq len)
    moreover have "sessionIndex (fst (Reset (p1, ?e2))) = sessionIndex p1"
      "closed (fst (Reset (p1, ?e2))) = closed p" "session (fst (Reset (p1, ?e2))) = session p"
      using fr op by (simp_all add: Reset_eq)
    ultimately show ?thesis
      using S B True by (simp add: P)
  next
    case False
    have B: "pinger_body logger (p, e) = Inr (p1, mgo_Close h ?e2)"
      using False by (simp add: pinger_body_def S P)
    have "calls (mgo_Close h ?e2) = calls e1 @ [PingCall h ?failed] @ [CloseCall h]"
      using c2 by (simp add: mgo_Close_def)
    moreover have "closed p1 = closed p" "session p1 = session p" using fr op by simp_all
    ultimately show ?thesis
      using S B False ne by (simp add: P)
  qed
qed

lemma pinger_body_Inr_Session:
  assumes "pinger_body logger (p, e) = Inr (p', e')"
  obtains h p1 e1 where "Session (Some logger) (p, e) = Inr (h, p1, e1)"
proof (cases "Session (Some logger) (p, e)")
  case (Inl err)
  with assms show ?thesis by (simp add: pinger_body_def)
next
  case (Inr r)
  with that show ?thesis by (cases r) auto
qed

subsection \<open>Invariants of the reachable pools\<close>

lemma pinger_body_Inr_frame:
  assumes "pinger_body logger (p, e) = Inr (p', e')"
  shows "\<not> closed p \<and> \<not> closed p' \<and> length (sessions p') = length (sessions p)"
proof -
  from assms obtain h p1 e1 where S: "Session (Some logger) (p, e) = Inr (h, p1, e1)"
    by (rule pinger_body_Inr_Session)
  note fr = Session_Inr_frame [OF S]
  then have r: "\<not> closed p" "0 \<le> sessionIndex p" "sessionIndex p < int (length (sessions p))"
    by simp_all
  from pinger_body_open [OF r, of logger e] S assms fr
  show ?thesis by (auto split: if_splits)
qed

lemma nil_when_closed_apply_op:
  assumes "nil_when_closed m st"
  shows "nil_when_closed m (apply_op x st)"
proof (cases st)
  case (Pair p e)
  with assms have len: "length (sessions p) = m"
    and nil: "closed p \<Longrightarrow> sessions p = replicate m None"
    by (simp_all add: nil_when_closed_def)
  show ?thesis
  proof (cases x)
    case (OpSession l)
    show ?thesis
    proof (cases "Session l (p, e)")
      case (Inl err)
      with OpSession Pair assms show ?thesis by simp
    next
      case (Inr r)
      then obtain h p' e' where S: "Session l (p, e) = Inr (h, p', e')" by (cases r) auto
      from Session_Inr_frame [OF S] len OpSession Pair S
      show ?thesis by (simp add: nil_when_closed_def)
    qed
  next
    case OpReset
    with Pair len show ?thesis by (simp add: Reset_eq nil_when_closed_def)
  next
    case OpClose
    with Pair len nil show ?thesis
      by (cases "closed p") (simp_all add: Close_open Close_closed nil_when_closed_def)
  next
    case OpPinger
    show ?thesis
    proof (cases "tomb p")
      case Dead
      with OpPinger Pair assms show ?thesis by simp
    next
      case (Running logger)
      show ?thesis
      proof (cases "pinger_body logger (p, e)")
        case (Inl err)
        with OpPinger Pair Running assms show ?thesis by simp
      next
        case (Inr r)
        then obtain p' e' where B: "pinger_body logger (p, e) = Inr (p', e')" by (cases r) auto
        from pinger_body_Inr_frame [OF B] len OpPinger Pair Running B
        show ?thesis by (simp add: nil_when_closed_def)
      qed
    qed
  qed
qed

lemma nil_when_closed_run_ops:
  "nil_when_closed m st \<Longrightarrow> nil_when_closed m (run_ops xs st)"
  by (induction xs arbitrary: st) (simp_all add: nil_when_closed_apply_op)

lemma run_ops_append: "run_ops (xs @ ys) st = run_ops ys (run_ops xs st)"
  by (induction xs arbitrary: st) simp_all

lemma NewPool_nil_when_closed:
  "NewPool logger s maxSessions e = Inr st0 \<Longrightarrow> nil_when_closed (nat maxSessions) st0"
  by (drule NewPool_Inr) (simp add: nil_when_closed_def)

lemma NewPool_well_formed:
  "NewPool logger s maxSessions e = Inr st0 \<Longrightarrow> 1 \<le> maxSessions \<Longrightarrow> well_formed st0"
  by (drule NewPool_Inr) (simp add: well_formed_def)

lemma Session_well_formed:
  assumes S: "Session l (p, e) = Inr (h, p', e')" and wf: "well_formed (p, e)"
  shows "well_formed (p', e')"
proof -
  note fr = Session_Inr_frame [OF S]
  then have op: "\<not> closed p" and r0: "0 \<le> sessionIndex p"
    and r1: "sessionIndex p < int (length (sessions p))" by simp_all
  from wf have old: "\<And>s. Some s \<in> set (sessions p) \<Longrightarrow> s < next_handle e"
    by (simp add: well_formed_def)
  have pos: "0 < int (length (sessions p))" using r0 r1 by linarith
  have nx0: "0 \<le> (sessionIndex p + 1) mod int (length (sessions p))"
    using pos by simp
  have nx1: "(sessionIndex p + 1) mod int (length (sessions p)) < int (length (sessions p))"
    using pos by simp
  show ?thesis
  proof (cases "sessions p ! nat (sessionIndex p)")
    case None
    from Session_miss [OF op r0 r1 None, of l e] S
    have p': "p' = p\<lparr>sessions := (sessions p)[nat (sessionIndex p) := Some (next_handle e)],
            sessionIndex := (sessionIndex p + 1) mod int (length (sessions p))\<rparr>"
      and e': "next_handle e' = Suc (Suc (next_handle e))"
      by auto
    have "s < next_handle e'" if "Some s \<in> set (sessions p')" for s
    proof -
      from that p' have "Some s \<in> insert (Some (next_handle e)) (set (sessions p))"
        using set_update_subset_insert [of "sessions p"] by auto
      then have "s \<le> next_handle e" using old [of s] by auto
      with e' show ?thesis by simp
    qed
    with p' op nx0 nx1 show ?thesis by (simp add: well_formed_def)
  next
    case (Some s')
    from Session_hit [OF op r0 r1 Some, of l e] S
    have p': "p' = p\<lparr>sessionIndex := (sessionIndex p + 1) mod int (length (sessions p))\<rparr>"
      and e': "next_handle e' = Suc (next_handle e)"
      by auto
    have "s < next_handle e'" if "Some s \<in> set (sessions p')" for s
      using that p' old [of s] e' by simp
    with p' op nx0 nx1 show ?thesis by (simp add: well_formed_def)
  qed
qed

lemma Reset_well_formed: "well_formed st \<Longrightarrow> well_formed (Reset st)"
  by (cases st) (simp add: Reset_eq well_formed_def)

lemma Close_well_formed: "well_formed st \<Longrightarrow> well_formed (Close st)"
  by (cases st, cases "closed (fst st)")
     (simp_all add: Close_open Close_closed well_formed_def)

lemma well_formed_env:
  "well_formed (p, e) \<Longrightarrow> next_handle e' = next_handle e \<Longrightarrow> well_formed (p, e')"
  by (simp add: well_formed_def)

lemma pinger_body_well_formed:
  assumes B: "pinger_body logger (p, e) = Inr (p', e')" and wf: "well_formed (p, e)"
  shows "well_formed (p', e')"
proof -
  from B obtain h p1 e1 where S: "Session (Some logger) (p, e) = Inr (h, p1, e1)"
    by (rule pinger_body_Inr_Session)
  note wf1 = Session_well_formed [OF S wf]
  note fr = Session_Inr_frame [OF S]
  then have r: "\<not> closed p" "0 \<le> sessionIndex p" "sessionIndex p < int (length (sessions p))"
    by simp_all
  let ?e2 = "snd (mgo_Ping h e1)"
  have wf2: "well_formed (p1, ?e2)"
    by (rule well_formed_env [OF wf1]) (simp add: mgo_Ping_def)
  from pinger_body_open [OF r, of logger e] S B
  have eq: "(p', e') =
       (if ping_err e1 (pings e1)
        then (fst (Reset (p1, ?e2)), mgo_Close h (snd (Reset (p1, ?e2))))
        else (p1, mgo_Close h ?e2))"
    by simp
  show ?thesis
  proof (cases "ping_err e1 (pings e1)")
    case True
    have "well_formed (fst (Reset (p1, ?e2)), snd (Reset (p1, ?e2)))"
      using Reset_well_formed [OF wf2] by simp
    then have "well_formed (fst (Reset (p1, ?e2)), mgo_Close h (snd (Reset (p1, ?e2))))"
      by (rule well_formed_env) (simp add: mgo_Close_def)
    with eq True show ?thesis by simp
  next
    case False
    have "well_formed (p1, mgo_Close h ?e2)"
      by (rule well_formed_env [OF wf2]) (simp add: mgo_Close_def)
    with eq False show ?thesis by simp
  qed
qed

lemma well_formed_apply_op:
  assumes "well_formed st"
  shows "well_formed (apply_op x st)"
proof (cases st)
  case (Pair p e)
  show ?thesis
  proof (cases x)
    case (OpSession l)
    show ?thesis
    proof (cases "Session l (p, e)")
      case (Inl err)
      with OpSession Pair assms show ?thesis by simp
    next
      case (Inr r)
      then obtain h p' e' where S: "Session l (p, e) = Inr (h, p', e')" by (cases r) auto
      from Session_well_formed [OF S] assms Pair OpSession S show ?thesis by simp
    qed
  next
    case OpReset
    with assms show ?thesis by (simp add: Reset_well_formed)
  next
    case OpClose
    with assms show ?thesis by (simp add: Close_well_formed)
  next
    case OpPinger
    show ?thesis
    proof (cases "tomb p")
      case Dead
      with OpPinger Pair assms show ?thesis by simp
    next
      case (Running logger)
      show ?thesis
      proof (cases "pinger_body logger (p, e)")
        case (Inl err)
        with OpPinger Pair Running assms show ?thesis by simp
      next
        case (Inr r)
        then obtain p' e' where B: "pinger_body logger (p, e) = Inr (p', e')" by (cases r) auto
        from pinger_body_well_formed [OF B] assms Pair OpPinger Running B
        show ?thesis by simp
      qed
    qed
  qed
qed

lemma well_formed_run_ops: "well_formed st \<Longrightarrow> well_formed (run_ops xs st)"
  by (induction xs arbitrary: st) (simp_all add: well_formed_apply_op)

subsection \<open>Example pools\<close>

lemma NewPool_fresh_pool:
  "0 \<le> m \<Longrightarrow> NewPool (Some recordingLogger) 0 m (env_failing k) = Inr (fresh_pool m k)"
  by (simp add: fresh_pool_def NewPool_def mgo_Copy_def)

lemma fresh_pool_eq:
  "0 \<le> m \<Longrightarrow> fresh_pool m k =
     (\<lparr>tomb = Running recordingLogger, sessions = replicate (nat m) None,
       sessionIndex = 0, session = 1, closed = False\<rparr>,
      \<lparr>next_handle = 2, calls = [CopyCall 0 1], ping_err = (\<lambda>n. n = k), pings = 0,
       logged = []\<rparr>)"
  by (simp add: fresh_pool_def NewPool_def mgo_Copy_def env_failing_def logger_or_null_def)

lemma fmt_d_digit: "0 \<le> i \<Longrightarrow> i < 10 \<Longrightarrow> fmt_d i = [digit_char (nat i)]"
  by (simp add: fmt_d_def dec_digits.simps)

lemma digit_chars:
  "digit_char 0 = CHR ''0''" "digit_char 1 = CHR ''1''" "digit_char 2 = CHR ''2''"
  "digit_char 3 = CHR ''3''"
  by (simp_all add: digit_char_def)

lemma used_pool:
  "run_ops [OpSession None] (fresh_pool 3 0) =
     (\<lparr>tomb = Running recordingLogger, sessions = [Some 2, None, None],
       sessionIndex = 1, session = 1, closed = False\<rparr>,
      \<lparr>next_handle = 4, calls = [CopyCall 0 1, CopyCall 1 2, PingCall 2 True, CloneCall 2 3],
       ping_err = (\<lambda>n. n = 0), pings = 1, logged = []\<rparr>)"
  by (simp add: fresh_pool_eq Session_miss numeral_3_eq_3 logger_or_null_def nullLogger_def)


lemma digit_char_Suc_0: "digit_char (Suc 0) = CHR ''1''"
  by (simp add: digit_char_def)

section \<open>The claims\<close>

subsection \<open>C4: Session on a closed pool\<close>

text \<open>
  Claim C4. Once \<^verbatim>\<open>Close\<close> has completed on a pool, whatever its state was, every
  later call of \<^verbatim>\<open>Session\<close> panics with the message of line 112, after any further
  calls of \<^verbatim>\<open>Session\<close>, \<^verbatim>\<open>Reset\<close> and \<^verbatim>\<open>Close\<close> and any turns of the pinger: it never
  returns a handle.
\<close>

theorem Session_after_Close_panics:
  "Session l (run_ops xs (Close st)) = Inl (Panic ''Session called on closed Pool'')"
proof -
  have "closed (fst (run_ops xs (Close st)))"
    by (rule closed_run_ops [OF closed_Close])
  then show ?thesis by (cases "run_ops xs (Close st)") (simp add: Session_closed)
qed

subsection \<open>C7: Close is idempotent\<close>

text \<open>
  Claim C7. After the first \<^verbatim>\<open>Close\<close>, and whatever is called on the pool afterwards,
  a further \<^verbatim>\<open>Close\<close> returns normally and changes neither the pool nor the
  environment: in particular it records no further call on the base session, which
  is closed once only.
\<close>

theorem Close_idempotent:
  "Close (run_ops xs (Close st)) = run_ops xs (Close st)"
proof -
  obtain p e where st': "run_ops xs (Close st) = (p, e)" by (cases "run_ops xs (Close st)")
  have "closed (fst (run_ops xs (Close st)))"
    by (rule closed_run_ops [OF closed_Close])
  moreover have "tomb (fst (run_ops xs (Close st))) = Dead"
    by (rule tomb_run_ops [OF closed_Close tomb_Close])
  ultimately have "closed p" "tomb p = Dead" using st' by simp_all
  then have "Close (p, e) = (p, e)" by (simp add: Close_closed)
  with st' show ?thesis by simp
qed

subsection \<open>C10: what Reset leaves alone\<close>

text \<open>
  Claim C10. \<^verbatim>\<open>Reset\<close> writes the slots only: every slot is nil afterwards and each
  handle that was in a slot has been closed, in slot order, while the cursor, the closed
  flag, the base session and the tomb are as before. So on an open pool the next
  \<^verbatim>\<open>Session\<close> call creates its session at the slot the cursor pointed to before the
  reset, and moves the cursor on from there.
\<close>

theorem Reset_frame:
  "tomb (fst (Reset st)) = tomb (fst st) \<and>
   sessionIndex (fst (Reset st)) = sessionIndex (fst st) \<and>
   session (fst (Reset st)) = session (fst st) \<and>
   closed (fst (Reset st)) = closed (fst st) \<and>
   sessions (fst (Reset st)) = replicate (length (sessions (fst st))) None \<and>
   snd (Reset st) = (snd st)\<lparr>calls := calls (snd st) @ map CloseCall (filled (sessions (fst st)))\<rparr> \<and>
   (\<not> closed (fst st) \<and> 0 \<le> sessionIndex (fst st) \<and>
      sessionIndex (fst st) < int (length (sessions (fst st))) \<longrightarrow>
    (\<exists>h st'. Session l (Reset st) = Inr (h, st') \<and>
       sessions (fst st') =
         (replicate (length (sessions (fst st))) None)
           [nat (sessionIndex (fst st)) := Some (next_handle (snd st))] \<and>
       sessionIndex (fst st') = (sessionIndex (fst st) + 1) mod int (length (sessions (fst st)))))"
proof (cases st)
  case (Pair p e)
  have "\<not> closed p \<Longrightarrow> 0 \<le> sessionIndex p \<Longrightarrow> sessionIndex p < int (length (sessions p)) \<Longrightarrow>
    \<exists>h st'. Session l (Reset (p, e)) = Inr (h, st') \<and>
       sessions (fst st') =
         (replicate (length (sessions p)) None)[nat (sessionIndex p) := Some (next_handle e)] \<and>
       sessionIndex (fst st') = (sessionIndex p + 1) mod int (length (sessions p))"
    by (simp add: Reset_eq Session_miss)
  with Pair show ?thesis by (simp add: Reset_eq)
qed

theorem Reset_frame_witness:
  "\<not> closed (fst (run_ops [OpSession None] (fresh_pool 3 0))) \<and>
   0 \<le> sessionIndex (fst (run_ops [OpSession None] (fresh_pool 3 0))) \<and>
   sessionIndex (fst (run_ops [OpSession None] (fresh_pool 3 0))) <
     int (length (sessions (fst (run_ops [OpSession None] (fresh_pool 3 0))))) \<and>
   sessions (fst (run_ops [OpSession None] (fresh_pool 3 0))) = [Some 2, None, None] \<and>
   sessions (fst (Reset (run_ops [OpSession None] (fresh_pool 3 0)))) = [None, None, None] \<and>
   sessionIndex (fst (Reset (run_ops [OpSession None] (fresh_pool 3 0)))) = 1 \<and>
   (\<exists>h st'. Session None (Reset (run_ops [OpSession None] (fresh_pool 3 0))) = Inr (h, st') \<and>
       sessions (fst st') = [None, Some 4, None] \<and> sessionIndex (fst st') = 2)"
  unfolding used_pool
  using Reset_frame [of "run_ops [OpSession None] (fresh_pool 3 0)" None, unfolded used_pool]
  by (simp add: numeral_3_eq_3 Reset_eq)

subsection \<open>C2: round robin\<close>

text \<open>
  Claim C2. On a pool fresh from \<^verbatim>\<open>NewPool\<close> with at least one slot, any number of
  \<^verbatim>\<open>Session\<close> calls in a row all return; after \<open>i\<close> of them the cursor is
  \<open>i mod maxSessions\<close>, within the bounds of the slice, and the next call (the \<open>i\<close>-th,
  counting from zero) works on slot \<open>i mod maxSessions\<close>: it returns a clone of the
  handle in that slot, leaves every other slot as it was, and advances the cursor by one
  modulo \<open>maxSessions\<close>.
\<close>

theorem round_robin:
  assumes new: "NewPool logger s maxSessions e = Inr st0" and pos: "1 \<le> maxSessions"
  shows "\<exists>hs st. Sessions ls st0 = Inr (hs, st) \<and> length hs = length ls \<and>
     sessionIndex (fst st) = int (length ls) mod maxSessions \<and>
     0 \<le> sessionIndex (fst st) \<and> sessionIndex (fst st) < maxSessions \<and>
     (\<exists>h st' s'. Session l st = Inr (h, st') \<and>
        sessions (fst st') ! (length ls mod nat maxSessions) = Some s' \<and>
        last (calls (snd st')) = CloneCall s' h \<and>
        (\<forall>j<nat maxSessions. j \<noteq> length ls mod nat maxSessions \<longrightarrow>
           sessions (fst st') ! j = sessions (fst st) ! j) \<and>
        sessionIndex (fst st') = (sessionIndex (fst st) + 1) mod maxSessions)"
proof -
  define m where "m = nat maxSessions"
  have m: "0 < m" and im: "int m = maxSessions" using pos by (simp_all add: m_def)
  have "filled_to m 0 st0" using NewPool_filled_to [OF new] by (simp add: m_def)
  from Sessions_filled_to [OF m this, of ls]
  obtain hs st where run: "Sessions ls st0 = Inr (hs, st)" and len: "length hs = length ls"
    and inv: "filled_to m (length ls) st" by auto
  have idx: "sessionIndex (fst st) = int (length ls) mod maxSessions"
    using inv im by (simp add: filled_to_def zmod_int)
  have rng: "0 \<le> sessionIndex (fst st)" "sessionIndex (fst st) < maxSessions"
    using idx pos by simp_all
  from Session_filled_to [OF m inv, of l]
  obtain h st' s' where "Session l st = Inr (h, st')"
    "sessions (fst st') ! (length ls mod m) = Some s'"
    "last (calls (snd st')) = CloneCall s' h"
    "\<forall>j<m. j \<noteq> length ls mod m \<longrightarrow> sessions (fst st') ! j = sessions (fst st) ! j"
    "sessionIndex (fst st') = (sessionIndex (fst st) + 1) mod int m"
    by blast
  with run len idx rng show ?thesis unfolding im unfolding m_def by blast
qed

theorem round_robin_witness:
  "NewPool (Some recordingLogger) 0 3 (env_failing 0) = Inr (fresh_pool 3 0) \<and> (1::int) \<le> 3 \<and>
   (\<exists>hs st. Sessions [None, None, None, None] (fresh_pool 3 0) = Inr (hs, st) \<and>
      sessionIndex (fst st) = 1 \<and>
      (\<exists>h st' s'. Session None st = Inr (h, st') \<and>
         sessions (fst st') ! 1 = Some s' \<and> last (calls (snd st')) = CloneCall s' h \<and>
         sessionIndex (fst st') = 2))"
proof -
  have new: "NewPool (Some recordingLogger) 0 3 (env_failing 0) = Inr (fresh_pool 3 0)"
    by (simp add: NewPool_fresh_pool)
  have pos: "(1::int) \<le> 3" by simp
  from round_robin [OF new pos, of "[None, None, None, None]" None]
  obtain hs st h st' s' where
    "Sessions [None, None, None, None] (fresh_pool 3 0) = Inr (hs, st)"
    "sessionIndex (fst st) = 1" "Session None st = Inr (h, st')"
    "sessions (fst st') ! 1 = Some s'" "last (calls (snd st')) = CloneCall s' h"
    "sessionIndex (fst st') = 2"
    by auto
  with new pos show ?thesis by blast
qed

subsection \<open>C3: capacity\<close>

text \<open>
  Claim C3. On a pool fresh from \<^verbatim>\<open>NewPool\<close> with \<open>maxSessions \<ge> 1\<close>, after exactly
  \<open>maxSessions\<close> calls of \<^verbatim>\<open>Session\<close> in a row no slot is nil, and one more call
  reuses slot \<open>0\<close>: it copies nothing, leaves the slots as they are, returns a clone of
  the handle of slot \<open>0\<close> and logs the reuse of index \<open>0\<close> at debug level.
\<close>

theorem full_pool_reuses_first_slot:
  assumes new: "NewPool logger s maxSessions e = Inr st0" and pos: "1 \<le> maxSessions"
    and n: "length ls = nat maxSessions"
  shows "\<exists>hs st. Sessions ls st0 = Inr (hs, st) \<and>
     length (sessions (fst st)) = nat maxSessions \<and>
     None \<notin> set (sessions (fst st)) \<and>
     (\<exists>h st' s'. sessions (fst st) ! 0 = Some s' \<and>
        Session l st = Inr (h, st') \<and>
        sessions (fst st') = sessions (fst st) \<and>
        calls (snd st') = calls (snd st) @ [CloneCall s' h] \<and>
        logged (snd st') =
          Debug (logger_or_null l) ''reusing session; index 0'' (logged (snd st)))"
proof -
  define m where "m = nat maxSessions"
  have m: "0 < m" using pos by (simp add: m_def)
  have "filled_to m 0 st0" using NewPool_filled_to [OF new] by (simp add: m_def)
  from Sessions_filled_to [OF m this, of ls] n
  obtain hs st where run: "Sessions ls st0 = Inr (hs, st)" and inv: "filled_to m m st"
    by (auto simp: m_def)
  obtain p e' where st: "st = (p, e')" by (cases st)
  from inv st have op: "\<not> closed p" and len: "length (sessions p) = m"
    and idx: "sessionIndex p = 0"
    and slots: "\<And>j. j < m \<Longrightarrow> sessions p ! j \<noteq> None"
    by (simp_all add: filled_to_def)
  have full: "None \<notin> set (sessions p)"
    using slots len by (auto simp: in_set_conv_nth)
  obtain s' where s': "sessions p ! 0 = Some s'" using slots [OF m] by auto
  have "Session l (p, e') =
     Inr (next_handle e',
          p\<lparr>sessionIndex := (sessionIndex p + 1) mod int (length (sessions p))\<rparr>,
          e'\<lparr>next_handle := Suc (next_handle e'),
            calls := calls e' @ [CloneCall s' (next_handle e')],
            logged := Debug (logger_or_null l)
                        (''reusing session; index '' @ fmt_d (sessionIndex p))
                        (logged e')\<rparr>)"
    using op idx len m s' by (intro Session_hit) simp_all
  then have "\<exists>h st'. Session l (p, e') = Inr (h, st') \<and>
        sessions (fst st') = sessions p \<and>
        calls (snd st') = calls e' @ [CloneCall s' h] \<and>
        logged (snd st') = Debug (logger_or_null l) ''reusing session; index 0'' (logged e')"
    by (simp add: idx fmt_d_digit digit_chars)
  with run st len full s' show ?thesis unfolding m_def by auto
qed

theorem full_pool_reuses_first_slot_witness:
  "NewPool (Some recordingLogger) 0 2 (env_failing 0) = Inr (fresh_pool 2 0) \<and> (1::int) \<le> 2 \<and>
   length [Some recordingLogger, None] = nat 2 \<and>
   (\<exists>hs st. Sessions [Some recordingLogger, None] (fresh_pool 2 0) = Inr (hs, st) \<and>
      length (sessions (fst st)) = 2 \<and> None \<notin> set (sessions (fst st)) \<and>
     (\<exists>h st' s'. sessions (fst st) ! 0 = Some s' \<and>
        Session (Some recordingLogger) st = Inr (h, st') \<and>
        sessions (fst st') = sessions (fst st) \<and>
        calls (snd st') = calls (snd st) @ [CloneCall s' h] \<and>
        logged (snd st') = logged (snd st) @ [DebugMsg ''reusing session; index 0'']))"
proof -
  have new: "NewPool (Some recordingLogger) 0 2 (env_failing 0) = Inr (fresh_pool 2 0)"
    by (simp add: NewPool_fresh_pool)
  have pos: "(1::int) \<le> 2" by simp
  have n: "length [Some recordingLogger, None] = nat 2" by simp
  from full_pool_reuses_first_slot [OF new pos n, of "Some recordingLogger"] new pos n
  show ?thesis by (simp add: logger_or_null_def recordingLogger_def)
qed

subsection \<open>C5: what a call of Session does on an open pool\<close>

text \<open>
  Claim C5. Take a pool made by \<^verbatim>\<open>NewPool\<close> with at least one slot, in any state it can
  reach, and still open. A \<^verbatim>\<open>Session\<close> call returns. When the slot under the cursor is
  nil, the calls it makes on mgo sessions are, in this order, a copy of the base session,
  a ping of the copy and a clone of the copy; the copy is stored in the slot, and the
  handle returned is the clone, not the copy. When the slot holds a handle, the only
  call is a clone of that handle, the slots stay as they are, and the handle returned is
  the clone, not the one in the slot. Whatever the pings of the environment answer, the
  call returns the same handle and leaves the same pool: the result of the ping is
  ignored.
\<close>

theorem Session_copies_pings_clones:
  assumes new: "NewPool logger s maxSessions e0 = Inr st0" and pos: "1 \<le> maxSessions"
    and run: "run_ops xs st0 = (p, e)" and op: "\<not> closed p"
  shows "\<exists>h p' e'. Session l (p, e) = Inr (h, p', e') \<and>
     (case sessions p ! nat (sessionIndex p) of
        None \<Rightarrow>
          calls e' = calls e @ [CopyCall (session p) (next_handle e),
                                PingCall (next_handle e) (ping_err e (pings e)),
                                CloneCall (next_handle e) h] \<and>
          sessions p' = (sessions p)[nat (sessionIndex p) := Some (next_handle e)] \<and>
          h \<noteq> next_handle e
      | Some s \<Rightarrow>
          calls e' = calls e @ [CloneCall s h] \<and>
          sessions p' = sessions p \<and>
          h \<noteq> s) \<and>
     (\<forall>f. \<exists>e''. Session l (p, e\<lparr>ping_err := f\<rparr>) = Inr (h, p', e''))"
proof -
  have wf: "well_formed (p, e)"
    using well_formed_run_ops [OF NewPool_well_formed [OF new pos], of xs] run by simp
  then have r0: "0 \<le> sessionIndex p" and r1: "sessionIndex p < int (length (sessions p))"
    and fresh: "\<And>s. Some s \<in> set (sessions p) \<Longrightarrow> s < next_handle e"
    by (simp_all add: well_formed_def)
  have alloc: "s' < next_handle e" if "sessions p ! nat (sessionIndex p) = Some s'" for s'
  proof -
    have "sessions p ! nat (sessionIndex p) \<in> set (sessions p)"
      using r0 r1 by (intro nth_mem) simp
    with that fresh show ?thesis by simp
  qed
  from Session_open [OF op r0 r1, of l e]
  obtain h p' e' where S: "Session l (p, e) = Inr (h, p', e')"
    and body: "case sessions p ! nat (sessionIndex p) of
        None \<Rightarrow>
          calls e' = calls e @ [CopyCall (session p) (next_handle e),
                                PingCall (next_handle e) (ping_err e (pings e)),
                                CloneCall (next_handle e) h] \<and>
          sessions p' = (sessions p)[nat (sessionIndex p) := Some (next_handle e)] \<and>
          h \<noteq> next_handle e
      | Some s \<Rightarrow>
          calls e' = calls e @ [CloneCall s h] \<and>
          sessions p' = sessions p \<and>
          (s < next_handle e \<longrightarrow> h \<noteq> s)"
    and indep: "\<forall>f. \<exists>e''. Session l (p, e\<lparr>ping_err := f\<rparr>) = Inr (h, p', e'')"
    by blast
  from body alloc have "case sessions p ! nat (sessionIndex p) of
        None \<Rightarrow>
          calls e' = calls e @ [CopyCall (session p) (next_handle e),
                                PingCall (next_handle e) (ping_err e (pings e)),
                                CloneCall (next_handle e) h] \<and>
          sessions p' = (sessions p)[nat (sessionIndex p) := Some (next_handle e)] \<and>
          h \<noteq> next_handle e
      | Some s \<Rightarrow>
          calls e' = calls e @ [CloneCall s h] \<and>
          sessions p' = sessions p \<and>
          h \<noteq> s"
    by (cases "sessions p ! nat (sessionIndex p)") simp_all
  with S indep show ?thesis by blast
qed

theorem Session_copies_pings_clones_witness:
  "NewPool (Some recordingLogger) 0 3 (env_failing 0) = Inr (fresh_pool 3 0) \<and>
   (1::int) \<le> 3 \<and>
   run_ops [OpSession None] (fresh_pool 3 0) =
     (\<lparr>tomb = Running recordingLogger, sessions = [Some 2, None, None],
       sessionIndex = 1, session = 1, closed = False\<rparr>,
      \<lparr>next_handle = 4, calls = [CopyCall 0 1, CopyCall 1 2, PingCall 2 True, CloneCall 2 3],
       ping_err = (\<lambda>n. n = 0), pings = 1, logged = []\<rparr>) \<and>
   (\<exists>h p' e'. Session None (run_ops [OpSession None] (fresh_pool 3 0)) = Inr (h, p', e') \<and>
      calls e' = [CopyCall 0 1, CopyCall 1 2, PingCall 2 True, CloneCall 2 3,
                  CopyCall 1 4, PingCall 4 False, CloneCall 4 h] \<and>
      sessions p' = [Some 2, Some 4, None] \<and> h \<noteq> 4)"
proof -
  have new: "NewPool (Some recordingLogger) 0 3 (env_failing 0) = Inr (fresh_pool 3 0)"
    by (simp add: NewPool_fresh_pool)
  have pos: "(1::int) \<le> 3" by simp
  have op: "\<not> closed \<lparr>tomb = Running recordingLogger, sessions = [Some 2, None, None],
       sessionIndex = 1, session = 1, closed = False\<rparr>" by simp
  from Session_copies_pings_clones [OF new pos used_pool op, of None]
  have "\<exists>h p' e'. Session None (run_ops [OpSession None] (fresh_pool 3 0)) = Inr (h, p', e') \<and>
      calls e' = [CopyCall 0 1, CopyCall 1 2, PingCall 2 True, CloneCall 2 3,
                  CopyCall 1 4, PingCall 4 False, CloneCall 4 h] \<and>
      sessions p' = [Some 2, Some 4, None] \<and> h \<noteq> 4"
    unfolding used_pool by auto
  with new pos used_pool show ?thesis by blast
qed

subsection \<open>C6: one turn of the pinger\<close>



subsection \<open>C8: a closed pool has nil slots and stays closed\<close>

text \<open>
  Claim C8. In every state a pool made by \<^verbatim>\<open>NewPool\<close> can reach: once \<^verbatim>\<open>closed\<close> is true,
  after any further calls of \<^verbatim>\<open>Session\<close>, \<^verbatim>\<open>Reset\<close> and \<^verbatim>\<open>Close\<close> and turns of the pinger
  it is still true, every slot is nil, and \<^verbatim>\<open>Session\<close> panics.
\<close>

theorem closed_pool_stays_closed_and_empty:
  assumes new: "NewPool logger s maxSessions e = Inr st0"
    and cl: "closed (fst (run_ops xs st0))"
  shows "closed (fst (run_ops (xs @ ys) st0)) \<and>
     sessions (fst (run_ops (xs @ ys) st0)) = replicate (nat maxSessions) None \<and>
     Session l (run_ops (xs @ ys) st0) = Inl (Panic ''Session called on closed Pool'')"
proof -
  let ?st = "run_ops (xs @ ys) st0"
  have c: "closed (fst ?st)"
    unfolding run_ops_append by (rule closed_run_ops [OF cl])
  have "nil_when_closed (nat maxSessions) ?st"
    by (rule nil_when_closed_run_ops [OF NewPool_nil_when_closed [OF new]])
  with c have "sessions (fst ?st) = replicate (nat maxSessions) None"
    by (simp add: nil_when_closed_def)
  moreover have "Session l ?st = Inl (Panic ''Session called on closed Pool'')"
    using c by (cases ?st) (simp add: Session_closed)
  ultimately show ?thesis using c by simp
qed

theorem closed_pool_stays_closed_and_empty_witness:
  "NewPool (Some recordingLogger) 0 2 (env_failing 0) = Inr (fresh_pool 2 0) \<and>
   closed (fst (run_ops [OpSession None, OpClose] (fresh_pool 2 0))) \<and>
   closed (fst (run_ops ([OpSession None, OpClose] @ [OpReset, OpSession None, OpPinger, OpClose])
                  (fresh_pool 2 0))) \<and>
   sessions (fst (run_ops ([OpSession None, OpClose] @ [OpReset, OpSession None, OpPinger, OpClose])
                  (fresh_pool 2 0))) = [None, None] \<and>
   Session None (run_ops ([OpSession None, OpClose] @ [OpReset, OpSession None, OpPinger, OpClose])
                  (fresh_pool 2 0)) = Inl (Panic ''Session called on closed Pool'')"
proof -
  have new: "NewPool (Some recordingLogger) 0 2 (env_failing 0) = Inr (fresh_pool 2 0)"
    by (simp add: NewPool_fresh_pool)
  have cl: "closed (fst (run_ops [OpSession None, OpClose] (fresh_pool 2 0)))"
    by (simp add: closed_Close)
  have r: "replicate (nat 2) None = [None, None]" by (simp add: numeral_2_eq_2)
  from closed_pool_stays_closed_and_empty
    [OF new cl, of "[OpReset, OpSession None, OpPinger, OpClose]" None] new cl
  show ?thesis by (simp only: r)
qed

subsection \<open>C9: NewPool with a non-positive maxSessions\<close>

text \<open>
  Claim C9, as the code has it. For a negative \<^verbatim>\<open>maxSessions\<close> the construction itself
  fails: \<^verbatim>\<open>make\<close> panics and \<^verbatim>\<open>NewPool\<close> returns no pool. For \<^verbatim>\<open>maxSessions = 0\<close>
  \<^verbatim>\<open>NewPool\<close> returns an open pool with no slot; the pool never gets one, and every
  \<^verbatim>\<open>Session\<close> call on it panics, on the index out of range while the pool is open and
  on the closed pool afterwards.
\<close>

theorem NewPool_nonpositive:
  "(maxSessions < 0 \<longrightarrow> NewPool logger s maxSessions e = Inl MakeSliceLenOutOfRange) \<and>
   (maxSessions = 0 \<longrightarrow>
      (\<exists>st. NewPool logger s maxSessions e = Inr st \<and> sessions (fst st) = [] \<and>
         \<not> closed (fst st) \<and>
         (\<forall>xs l. sessions (fst (run_ops xs st)) = [] \<and>
            Session l (run_ops xs st) =
              (if closed (fst (run_ops xs st))
               then Inl (Panic ''Session called on closed Pool'')
               else Inl IndexOutOfRange))))"
proof (intro conjI impI)
  assume "maxSessions < 0"
  then show "NewPool logger s maxSessions e = Inl MakeSliceLenOutOfRange"
    by (simp add: NewPool_def)
next
  assume z: "maxSessions = 0"
  then obtain st where new: "NewPool logger s maxSessions e = Inr st"
    by (simp add: NewPool_def mgo_Copy_def)
  from NewPool_Inr [OF new] z have a: "sessions (fst st) = []" "\<not> closed (fst st)"
    by simp_all
  have b: "sessions (fst (run_ops xs st)) = [] \<and>
            Session l (run_ops xs st) =
              (if closed (fst (run_ops xs st))
               then Inl (Panic ''Session called on closed Pool'')
               else Inl IndexOutOfRange)" for xs l
  proof -
    have "nil_when_closed 0 (run_ops xs st)"
      using nil_when_closed_run_ops [OF NewPool_nil_when_closed [OF new], of xs] z by simp
    then have e: "sessions (fst (run_ops xs st)) = []" by (simp add: nil_when_closed_def)
    obtain p e' where st': "run_ops xs st = (p, e')" by (cases "run_ops xs st")
    with e have "sessions p = []" by simp
    then have "sessionIndex p < 0 \<or> int (length (sessions p)) \<le> sessionIndex p"
      by auto
    then have "Session l (p, e') =
        (if closed p then Inl (Panic ''Session called on closed Pool'') else Inl IndexOutOfRange)"
      by (cases "closed p") (simp_all add: Session_closed Session_out_of_range)
    with e st' show ?thesis by simp
  qed
  from new a b show "\<exists>st. NewPool logger s maxSessions e = Inr st \<and> sessions (fst st) = [] \<and>
         \<not> closed (fst st) \<and>
         (\<forall>xs l. sessions (fst (run_ops xs st)) = [] \<and>
            Session l (run_ops xs st) =
              (if closed (fst (run_ops xs st))
               then Inl (Panic ''Session called on closed Pool'')
               else Inl IndexOutOfRange))"
    by blast
qed

theorem NewPool_nonpositive_witness:
  "(- 1 :: int) < 0 \<and> NewPool None 0 (- 1) (env_failing 0) = Inl MakeSliceLenOutOfRange \<and>
   (0::int) = 0 \<and>
   (\<exists>st. NewPool None 0 0 (env_failing 0) = Inr st \<and> sessions (fst st) = [] \<and>
      Session None st = Inl IndexOutOfRange)"
proof -
  have n: "(- 1 :: int) < 0" by simp
  have z: "(0::int) = 0" by simp
  from NewPool_nonpositive [of "- 1" None 0 "env_failing 0"] n
  have a: "NewPool None 0 (- 1) (env_failing 0) = Inl MakeSliceLenOutOfRange" by blast
  from NewPool_nonpositive [of 0 None 0 "env_failing 0"] z
  obtain st where st: "NewPool None 0 0 (env_failing 0) = Inr st" "sessions (fst st) = []"
    "\<not> closed (fst st)"
    "\<And>xs l. Session l (run_ops xs st) =
              (if closed (fst (run_ops xs st))
               then Inl (Panic ''Session called on closed Pool'')
               else Inl IndexOutOfRange)"
    by blast
  from st(4) [of None "[]"] st(3) have "Session None st = Inl IndexOutOfRange" by simp
  with a n st show ?thesis by blast
qed

theorem NewPool_negative_counterexample:
  "NewPool None 0 (- 1) (env_failing 0) = Inl MakeSliceLenOutOfRange"
  by (simp add: NewPool_def)

subsection \<open>C1: the example scenario\<close>

text \<open>
  Claim C1, as the code has it. On a pool fresh from \<^verbatim>\<open>NewPool\<close> with three slots, four
  \<^verbatim>\<open>Session\<close> calls in a row log the creation of the sessions of index 0, 1 and 2 and
  then the reuse of index 0, and leave the cursor at 1. \<^verbatim>\<open>Reset\<close> does not move the
  cursor, so one more \<^verbatim>\<open>Session\<close> call after a \<^verbatim>\<open>Reset\<close> logs the creation of the session
  of index 1, not 0.
\<close>

theorem example_scenario:
  assumes new: "NewPool logger s 3 e = Inr st0"
  shows "\<exists>hs st4 h st5.
     Sessions [Some recordingLogger, Some recordingLogger, Some recordingLogger,
               Some recordingLogger] st0 = Inr (hs, st4) \<and>
     logged (snd st4) = logged e @
       [InfoMsg ''creating new session; index 0'',
        InfoMsg ''creating new session; index 1'',
        InfoMsg ''creating new session; index 2'',
        DebugMsg ''reusing session; index 0''] \<and>
     sessionIndex (fst st4) = 1 \<and>
     sessionIndex (fst (Reset st4)) = 1 \<and>
     Session (Some recordingLogger) (Reset st4) = Inr (h, st5) \<and>
     logged (snd st5) = logged (snd st4) @ [InfoMsg ''creating new session; index 1'']"
proof -
  let ?L = "Some recordingLogger"
  from NewPool_Inr [OF new] obtain p0 e0 where st0: "st0 = (p0, e0)"
    and p0: "\<not> closed p0" "sessionIndex p0 = 0" "sessions p0 = [None, None, None]"
    and e0: "logged e0 = logged e"
    by (simp add: numeral_3_eq_3)
  note ev = logger_or_null_def recordingLogger_def fmt_d_digit digit_chars digit_char_Suc_0
  obtain h1 p1 e1 where S1: "Session ?L (p0, e0) = Inr (h1, p1, e1)"
    and p1: "\<not> closed p1" "sessionIndex p1 = 1" "sessions p1 = [Some (next_handle e0), None, None]"
    and e1: "logged e1 = logged e @ [InfoMsg ''creating new session; index 0'']"
    using p0 e0 by (simp add: Session_miss ev)
  obtain h2 p2 e2 where S2: "Session ?L (p1, e1) = Inr (h2, p2, e2)"
    and p2: "\<not> closed p2" "sessionIndex p2 = 2"
      "sessions p2 = [Some (next_handle e0), Some (next_handle e1), None]"
    and e2: "logged e2 = logged e1 @ [InfoMsg ''creating new session; index 1'']"
    using p1 by (simp add: Session_miss ev)
  obtain h3 p3 e3 where S3: "Session ?L (p2, e2) = Inr (h3, p3, e3)"
    and p3: "\<not> closed p3" "sessionIndex p3 = 0"
      "sessions p3 = [Some (next_handle e0), Some (next_handle e1), Some (next_handle e2)]"
    and e3: "logged e3 = logged e2 @ [InfoMsg ''creating new session; index 2'']"
    using p2 by (simp add: Session_miss ev)
  obtain h4 p4 e4 where S4: "Session ?L (p3, e3) = Inr (h4, p4, e4)"
    and p4: "\<not> closed p4" "sessionIndex p4 = 1" "length (sessions p4) = 3"
    and e4: "logged e4 = logged e3 @ [DebugMsg ''reusing session; index 0'']"
    using p3 by (simp add: Session_hit [where s = "next_handle e0"] ev)
  have run: "Sessions [?L, ?L, ?L, ?L] st0 = Inr ([h1, h2, h3, h4], p4, e4)"
    by (simp add: st0 S1 S2 S3 S4)
  obtain p4' e4' where R: "Reset (p4, e4) = (p4', e4')"
    and p4': "\<not> closed p4'" "sessionIndex p4' = 1" "sessions p4' = [None, None, None]"
    and e4': "logged e4' = logged e4"
    using p4 by (simp add: Reset_eq numeral_3_eq_3)
  obtain h5 p5 e5 where S5: "Session ?L (p4', e4') = Inr (h5, p5, e5)"
    and e5: "logged e5 = logged e4 @ [InfoMsg ''creating new session; index 1'']"
    using p4' e4' by (simp add: Session_miss ev)
  from run R S5 e1 e2 e3 e4 e5 p4 p4' show ?thesis by simp
qed

theorem example_scenario_witness:
  "NewPool (Some recordingLogger) 0 3 (env_failing 9) = Inr (fresh_pool 3 9) \<and>
   (\<exists>hs st4 h st5.
     Sessions [Some recordingLogger, Some recordingLogger, Some recordingLogger,
               Some recordingLogger] (fresh_pool 3 9) = Inr (hs, st4) \<and>
     logged (snd st4) =
       [InfoMsg ''creating new session; index 0'',
        InfoMsg ''creating new session; index 1'',
        InfoMsg ''creating new session; index 2'',
        DebugMsg ''reusing session; index 0''] \<and>
     Session (Some recordingLogger) (Reset st4) = Inr (h, st5) \<and>
     logged (snd st5) = logged (snd st4) @ [InfoMsg ''creating new session; index 1''])"
proof -
  have new: "NewPool (Some recordingLogger) 0 3 (env_failing 9) = Inr (fresh_pool 3 9)"
    by (simp add: NewPool_fresh_pool)
  have "logged (env_failing 9) = []" by (simp add: env_failing_def)
  with example_scenario [OF new] new show ?thesis by auto
qed

theorem example_scenario_counterexample:
  "logged (snd (run_ops
      [OpSession (Some recordingLogger), OpSession (Some recordingLogger),
       OpSession (Some recordingLogger), OpSession (Some recordingLogger),
       OpReset, OpSession (Some recordingLogger)] (fresh_pool 3 9))) =
     [InfoMsg ''creating new session; index 0'',
      InfoMsg ''creating new session; index 1'',
      InfoMsg ''creating new session; index 2'',
      DebugMsg ''reusing session; index 0'',
      InfoMsg ''creating new session; index 1''] \<and>
   sessions (fst (run_ops
      [OpSession (Some recordingLogger), OpSession (Some recordingLogger),
       OpSession (Some recordingLogger), OpSession (Some recordingLogger),
       OpReset, OpSession (Some recordingLogger)] (fresh_pool 3 9))) =
     [None, Some 9, None]"
  by (simp add: fresh_pool_eq numeral_3_eq_3 Session_miss Session_hit_the Reset_eq
      logger_or_null_def recordingLogger_def fmt_d_digit digit_chars digit_char_Suc_0)

end
